theory Spec2Isabelle
  imports Complex_Main "HOL-Library.Sublist"
begin

section \<open>Numbers\<close>

text \<open>
  The number-theoretic functions of \<^verbatim>\<open>index.ts\<close> take and return JavaScript numbers
  that hold integers.  A \<open>number\<close> is an integer of any size, one of the two infinities,
  or NaN.  Arithmetic on finite values is exact (rounding beyond \<open>2^53\<close> and the sign of
  zero are not modelled: \<open>Fin 0\<close> stands for both zeros, which \<^verbatim>\<open>===\<close> and
  \<^verbatim>\<open>!==\<close> do not tell apart); arithmetic with an infinity or NaN follows IEEE 754.
\<close>

datatype number = Fin int | PosInf | NegInf | NaN

fun isNaN :: "number \<Rightarrow> bool" where
  "isNaN NaN = True"
| "isNaN _ = False"

text \<open>The operator \<^verbatim>\<open>x - y\<close>.\<close>

fun num_sub :: "number \<Rightarrow> number \<Rightarrow> number" where
  "num_sub NaN _ = NaN"
| "num_sub _ NaN = NaN"
| "num_sub (Fin x) (Fin y) = Fin (x - y)"
| "num_sub (Fin x) PosInf = NegInf"
| "num_sub (Fin x) NegInf = PosInf"
| "num_sub PosInf (Fin y) = PosInf"
| "num_sub PosInf PosInf = NaN"
| "num_sub PosInf NegInf = PosInf"
| "num_sub NegInf (Fin y) = NegInf"
| "num_sub NegInf PosInf = NegInf"
| "num_sub NegInf NegInf = NaN"

text \<open>The operator \<^verbatim>\<open>x * y\<close>.\<close>

fun num_mul :: "number \<Rightarrow> number \<Rightarrow> number" where
  "num_mul NaN _ = NaN"
| "num_mul _ NaN = NaN"
| "num_mul (Fin x) (Fin y) = Fin (x * y)"
| "num_mul (Fin x) PosInf = (if x = 0 then NaN else if 0 < x then PosInf else NegInf)"
| "num_mul (Fin x) NegInf = (if x = 0 then NaN else if 0 < x then NegInf else PosInf)"
| "num_mul PosInf (Fin y) = (if y = 0 then NaN else if 0 < y then PosInf else NegInf)"
| "num_mul NegInf (Fin y) = (if y = 0 then NaN else if 0 < y then NegInf else PosInf)"
| "num_mul PosInf PosInf = PosInf"
| "num_mul PosInf NegInf = NegInf"
| "num_mul NegInf PosInf = NegInf"
| "num_mul NegInf NegInf = PosInf"

text \<open>\<^verbatim>\<open>Math.abs(x)\<close>.\<close>

fun num_abs :: "number \<Rightarrow> number" where
  "num_abs (Fin x) = Fin \<bar>x\<bar>"
| "num_abs PosInf = PosInf"
| "num_abs NegInf = PosInf"
| "num_abs NaN = NaN"

section \<open>Floor division\<close>

text \<open>
  \<^verbatim>\<open>export function div(a, b) { return Math.floor(a / b); }\<close>

  There is no check of the divisor: a finite \<open>a\<close> divided by zero is an infinity, or NaN
  when \<open>a\<close> is zero too, and \<^verbatim>\<open>Math.floor\<close> returns infinities and NaN unchanged.
  A finite value divided by an infinity is a zero.
\<close>

fun div_js :: "number \<Rightarrow> number \<Rightarrow> number" where
  "div_js NaN _ = NaN"
| "div_js _ NaN = NaN"
| "div_js (Fin a) (Fin b) =
     (if b = 0 then (if a = 0 then NaN else if 0 < a then PosInf else NegInf)
      else Fin (a div b))"
| "div_js (Fin a) PosInf = Fin 0"
| "div_js (Fin a) NegInf = Fin 0"
| "div_js PosInf (Fin b) = (if 0 \<le> b then PosInf else NegInf)"
| "div_js NegInf (Fin b) = (if 0 \<le> b then NegInf else PosInf)"
| "div_js PosInf PosInf = NaN"
| "div_js PosInf NegInf = NaN"
| "div_js NegInf PosInf = NaN"
| "div_js NegInf NegInf = NaN"

section \<open>Extended Euclidean algorithm\<close>

text \<open>The result type \<^verbatim>\<open>ExtendedEuclid\<close>; its field \<^verbatim>\<open>gcd\<close> is \<open>gcd_ee\<close> here.\<close>

record ExtendedEuclid =
  coefA :: number
  coefB :: number
  gcd_ee :: number
  quotientA :: number
  quotientB :: number

text \<open>\<^verbatim>\<open>throw new Error('Invalid input')\<close>\<close>

datatype error = InvalidInput

text \<open>
  The \<^verbatim>\<open>while (r !== 0)\<close> loop of \<^verbatim>\<open>extendedEuclid\<close> with its \<^verbatim>\<open>return\<close>, on the six
  loop variables.  The loop may run forever (it does when \<open>r\<close> becomes NaN); \<open>None\<close> is
  the run that never returns.
\<close>

partial_function (option) euclid_loop ::
  "number \<Rightarrow> number \<Rightarrow> number \<Rightarrow> number \<Rightarrow> number \<Rightarrow> number \<Rightarrow> ExtendedEuclid option"
where
  "euclid_loop rOld r sOld s tOld t =
     (if r \<noteq> Fin 0 then
        (let quotient = div_js rOld r in
         euclid_loop r (num_sub rOld (num_mul quotient r))
                     s (num_sub sOld (num_mul quotient s))
                     t (num_sub tOld (num_mul quotient t)))
      else Some \<lparr>coefA = sOld, coefB = tOld, gcd_ee = rOld,
                 quotientA = t, quotientB = num_abs s\<rparr>)"

declare euclid_loop.simps [code]

text \<open>
  \<^verbatim>\<open>extendedEuclid(a, b)\<close>: the \<^verbatim>\<open>isNaN\<close> guard, then the loop from
  \<^verbatim>\<open>[rOld, r] = [a, b]\<close>, \<^verbatim>\<open>[sOld, s] = [1, 0]\<close>, \<^verbatim>\<open>[tOld, t] = [0, 1]\<close>.  The result is
  \<open>Some (Inl e)\<close> for a throw, \<open>Some (Inr res)\<close> for a return and \<open>None\<close> for a loop that
  never ends.
\<close>

definition extendedEuclid :: "number \<Rightarrow> number \<Rightarrow> (error + ExtendedEuclid) option" where
  "extendedEuclid a b =
     (if isNaN a \<or> isNaN b then Some (Inl InvalidInput)
      else map_option Inr (euclid_loop a b (Fin 1) (Fin 0) (Fin 0) (Fin 1)))"

section \<open>Iterated Euclidean algorithm\<close>




section \<open>Combinations\<close>

text \<open>
  \<^verbatim>\<open>kCombinations(set, k)\<close> of \<^verbatim>\<open>combinations.ts\<close>; the array \<^verbatim>\<open>set\<close> is the list
  \<open>xs\<close>.  \<^verbatim>\<open>set.slice(i, i + 1)\<close> is \<open>take 1 (drop i xs)\<close> and \<^verbatim>\<open>set.slice(i + 1)\<close> is
  \<open>drop (i + 1) xs\<close>; both loops push in the order of their index.
\<close>

function kCombinations :: "'a list \<Rightarrow> int \<Rightarrow> 'a list list" where
  "kCombinations xs k =
     (if k > int (length xs) \<or> k \<le> 0 then []
      else if k = int (length xs) then [xs]
      else if k = 1 then map (\<lambda>i. [xs ! i]) [0 ..< length xs]
      else concat (map (\<lambda>i. map (\<lambda>tailComb. take 1 (drop i xs) @ tailComb)
                                 (kCombinations (drop (i + 1) xs) (k - 1)))
                       [0 ..< nat (int (length xs) - k + 1)]))"
  by pat_completeness auto
termination
  by (relation "measure (\<lambda>(xs, k). nat k)") auto

declare kCombinations.simps [simp del]

text \<open>\<^verbatim>\<open>combinations(set)\<close>: the \<open>k\<close>-combinations for \<open>k = 1, \<dots>, set.length\<close>, in this order.\<close>

definition combinations :: "'a list \<Rightarrow> 'a list list" where
  "combinations xs = concat (map (\<lambda>k. kCombinations xs k) [1 .. int (length xs)])"

section \<open>Periodic distance\<close>

text \<open>
  Modelled from the spec: \<^verbatim>\<open>mmod\<close> is imported from \<^verbatim>\<open>./fraction\<close>, which is not among the
  sources.  The specification calls it the mathematical modulo, whose result has the
  sign of the period, not the truncating remainder.  Cents values are exact real numbers
  here; the rounding of floating-point arithmetic is not modelled.
\<close>

definition mmod :: "real \<Rightarrow> real \<Rightarrow> real" where
  "mmod a b = a - b * of_int \<lfloor>a / b\<rfloor>"

text \<open>
  \<^verbatim>\<open>circleDifference(a, b, equaveCents = 1200.0)\<close> and
  \<^verbatim>\<open>circleDistance(a, b, equaveCents = 1200.0)\<close>; the period is always passed here.
\<close>

definition circleDifference :: "real \<Rightarrow> real \<Rightarrow> real \<Rightarrow> real" where
  "circleDifference a b equaveCents =
     (let half = 0.5 * equaveCents in mmod (a - b + half) equaveCents - half)"


section \<open>The loop of the extended Euclidean algorithm on integers\<close>

lemma euclid_loop_step:
  "r \<noteq> 0 \<Longrightarrow>
   euclid_loop (Fin ro) (Fin r) (Fin so) (Fin s) (Fin to) (Fin t) =
   euclid_loop (Fin r) (Fin (ro - ro div r * r)) (Fin s) (Fin (so - ro div r * s))
     (Fin t) (Fin (to - ro div r * t))"
  by (subst euclid_loop.simps) (simp add: Let_def)

lemma euclid_loop_exit:
  "euclid_loop ro (Fin 0) so s to t =
   Some \<lparr>coefA = so, coefB = to, gcd_ee = ro, quotientA = t, quotientB = num_abs s\<rparr>"
  by (subst euclid_loop.simps) simp











text \<open>
  C3.  At \<open>a = 240\<close>, \<open>b = 46\<close> the returned gcd is \<open>2\<close> and \<open>quotientA\<close> is \<open>-120\<close>, while
  \<open>div 240 2\<close> is \<open>120\<close>; \<open>quotientB\<close> is \<open>23 = \<bar>46 / 2\<bar>\<close>.
\<close>

theorem extendedEuclid_quotientA_sign:
  "extendedEuclid (Fin 240) (Fin 46) =
     Some (Inr \<lparr>coefA = Fin (- 9), coefB = Fin 47, gcd_ee = Fin 2,
                 quotientA = Fin (- 120), quotientB = Fin 23\<rparr>)
   \<and> div_js (Fin 240) (Fin 2) = Fin 120
   \<and> num_abs (div_js (Fin 46) (Fin 2)) = Fin 23"
  by (simp add: extendedEuclid_def euclid_loop_step euclid_loop_exit)

text \<open>
  C6.  \<open>extendedEuclid a b\<close> throws the invalid-input error if and only if \<open>a\<close> or \<open>b\<close> is
  NaN; on \<open>a = 0\<close>, \<open>b = 0\<close> it does not throw and returns \<open>gcd = 0\<close>.
\<close>

theorem extendedEuclid_throws_iff_NaN:
  "((\<exists>e. extendedEuclid a b = Some (Inl e)) \<longleftrightarrow> isNaN a \<or> isNaN b)
   \<and> extendedEuclid (Fin 0) (Fin 0) =
       Some (Inr \<lparr>coefA = Fin 1, coefB = Fin 0, gcd_ee = Fin 0,
                   quotientA = Fin 1, quotientB = Fin 0\<rparr>)"
proof -
  have "(\<exists>e. extendedEuclid a b = Some (Inl e)) \<longleftrightarrow> isNaN a \<or> isNaN b"
    by (auto simp: extendedEuclid_def)
  moreover have "extendedEuclid (Fin 0) (Fin 0) =
       Some (Inr \<lparr>coefA = Fin 1, coefB = Fin 0, gcd_ee = Fin 0,
                   quotientA = Fin 1, quotientB = Fin 0\<rparr>)"
    by (simp add: extendedEuclid_def euclid_loop_exit)
  ultimately show ?thesis by simp
qed

theorem extendedEuclid_throws_iff_NaN_witness:
  "extendedEuclid NaN (Fin 3) = Some (Inl InvalidInput)
   \<and> extendedEuclid (Fin 3) (Fin 5) \<noteq> Some (Inl InvalidInput)"
proof -
  have "\<exists>e. extendedEuclid NaN (Fin 3) = Some (Inl e)"
    using extendedEuclid_throws_iff_NaN [of NaN "Fin 3"] by simp
  moreover have "\<not> (\<exists>e. extendedEuclid (Fin 3) (Fin 5) = Some (Inl e))"
    using extendedEuclid_throws_iff_NaN [of "Fin 3" "Fin 5"] by simp
  ultimately show ?thesis
    by (metis error.exhaust)
qed







section \<open>Properties of the periodic distance\<close>

lemma mmod_frac: "p \<noteq> 0 \<Longrightarrow> mmod x p = p * frac (x / p)"
  by (simp add: mmod_def frac_def algebra_simps)

lemma mmod_range:
  assumes "0 < p"
  shows "0 \<le> mmod x p" and "mmod x p < p"
proof -
  have "0 \<le> frac (x / p)" "frac (x / p) < 1"
    by (simp_all add: frac_lt_1)
  then show "0 \<le> mmod x p" "mmod x p < p"
    using assms by (simp_all add: mmod_frac)
qed




text \<open>
  C7.  For numbers \<open>a\<close>, \<open>b\<close> and a positive period \<open>p\<close>, \<open>circleDifference a b p\<close> is
  \<open>((a - b + p/2) mod p) - p/2\<close>, where the modulo is the mathematical one: it lies in
  \<open>[0, p)\<close> and differs from its argument by an integer multiple of \<open>p\<close>.
  \<open>circleDifference 1150 50 1200\<close> is \<open>-100\<close>.
\<close>

theorem circleDifference_formula:
  "(0 < p \<longrightarrow>
      circleDifference a b p = mmod (a - b + p / 2) p - p / 2
      \<and> 0 \<le> mmod (a - b + p / 2) p \<and> mmod (a - b + p / 2) p < p
      \<and> (\<exists>k::int. mmod (a - b + p / 2) p = (a - b + p / 2) - of_int k * p))
   \<and> circleDifference 1150 50 1200 = - 100"
proof -
  have "circleDifference a b p = mmod (a - b + p / 2) p - p / 2"
    by (simp add: circleDifference_def Let_def)
  moreover have "\<exists>k::int. mmod (a - b + p / 2) p = (a - b + p / 2) - of_int k * p"
    by (rule exI [of _ "\<lfloor>(a - b + p / 2) / p\<rfloor>"]) (simp add: mmod_def algebra_simps)
  moreover have "circleDifference 1150 50 1200 = - 100"
    by (simp add: circleDifference_def Let_def mmod_def)
  ultimately show ?thesis
    using mmod_range [of p "a - b + p / 2"] by simp
qed

theorem circleDifference_formula_witness:
  "circleDifference 30 1180 1200 = mmod (30 - 1180 + 1200 / 2) 1200 - 1200 / 2
   \<and> 0 \<le> mmod (30 - 1180 + 1200 / 2) 1200 \<and> mmod (30 - 1180 + 1200 / 2) 1200 < 1200
   \<and> (\<exists>k::int. mmod (30 - 1180 + 1200 / 2) 1200 = (30 - 1180 + 1200 / 2) - of_int k * 1200)"
proof -
  have h: "(0::real) < 1200" by simp
  from circleDifference_formula [of 1200 30 1180, THEN conjunct1, rule_format, OF h]
  show ?thesis .
qed




section \<open>Properties of the iterated algorithm\<close>






section \<open>Properties of the combinations\<close>

lemma choose_diagonal_sum:
  assumes "1 \<le> m" and "m \<le> n"
  shows "(\<Sum>i<n - m + 1. (n - 1 - i) choose (m - 1)) = n choose m"
proof -
  have "(\<Sum>i<n. (n - Suc i) choose (m - 1)) = (\<Sum>i<n - m + 1. (n - Suc i) choose (m - 1))"
    using assms by (intro sum.mono_neutral_right) auto
  moreover have "(\<Sum>i<n. (n - Suc i) choose (m - 1)) = (\<Sum>j<n. j choose (m - 1))"
    by (rule sum.nat_diff_reindex)
  moreover have "(\<Sum>j<n. j choose (m - 1)) = n choose m"
    using assms sum_choose_upper [of "m - 1" "n - 1"]
    by (cases n; cases m) (simp_all add: lessThan_Suc_atMost)
  ultimately show ?thesis by simp
qed

lemma kCombinations_member:
  "c \<in> set (kCombinations xs k) \<Longrightarrow> length c = nat k \<and> subseq c xs"
proof (induction xs k arbitrary: c rule: kCombinations.induct)
  case (1 xs k)
  let ?n = "int (length xs)"
  show ?case
  proof (cases "k > ?n \<or> k \<le> 0")
    case True
    with "1.prems" show ?thesis
      by (simp add: kCombinations.simps)
  next
    case range: False
    show ?thesis
    proof (cases "k = ?n")
      case True
      with range "1.prems" show ?thesis
        by (simp add: kCombinations.simps)
    next
      case neq: False
      show ?thesis
      proof (cases "k = 1")
        case True
        with range neq "1.prems" show ?thesis
          by (auto simp: kCombinations.simps [of xs 1] subseq_singleton_left)
      next
        case False
        with range neq "1.prems" obtain i tc where
          i: "i < nat (?n - k + 1)"
          and tc: "tc \<in> set (kCombinations (drop (i + 1) xs) (k - 1))"
          and c: "c = take 1 (drop i xs) @ tc"
          by (auto simp: kCombinations.simps [of xs k])
        from i range have il: "i < length xs"
          by linarith
        have ih: "length tc = nat (k - 1) \<and> subseq tc (drop (i + 1) xs)"
          using "1.IH" [OF range neq False _ tc] i by simp
        have d: "drop i xs = xs ! i # drop (i + 1) xs"
          using il by (simp add: Cons_nth_drop_Suc)
        then have c': "c = xs ! i # tc"
          using c by simp
        have "subseq c (drop i xs)"
          unfolding c' d using ih by simp
        then have "subseq c (take i xs @ drop i xs)"
          by (rule subseq_drop_many)
        then have "subseq c xs"
          by simp
        moreover have "length c = Suc (nat (k - 1))"
          using c' ih by simp
        moreover have "Suc (nat (k - 1)) = nat k"
          using range by linarith
        ultimately show ?thesis by simp
      qed
    qed
  qed
qed

lemma kCombinations_length:
  "0 < k \<Longrightarrow> k \<le> int (length xs) \<Longrightarrow>
   length (kCombinations xs k) = length xs choose nat k"
proof (induction xs k rule: kCombinations.induct)
  case (1 xs k)
  let ?n = "int (length xs)"
  from "1.prems" have range: "\<not> (k > ?n \<or> k \<le> 0)"
    by simp
  show ?case
  proof (cases "k = ?n")
    case True
    with range show ?thesis
      by (simp add: kCombinations.simps)
  next
    case neq: False
    show ?thesis
    proof (cases "k = 1")
      case True
      with range neq show ?thesis
        by (simp add: kCombinations.simps [of xs 1])
    next
      case False
      let ?m = "nat k"
      have m: "1 \<le> ?m" "?m \<le> length xs" "nat (?n - k + 1) = length xs - ?m + 1"
        using range by linarith+
      have each: "length (kCombinations (drop (i + 1) xs) (k - 1)) =
          (length xs - 1 - i) choose (?m - 1)" if "i < length xs - ?m + 1" for i
      proof -
        have "i < nat (?n - k + 1)"
          using that m(3) by linarith
        then have "i \<in> set [0..<nat (?n - k + 1)]"
          by simp
        moreover have "0 < k - 1" "k - 1 \<le> int (length (drop (i + 1) xs))"
          using range False that by simp_all linarith
        ultimately have "length (kCombinations (drop (i + 1) xs) (k - 1)) =
            length (drop (i + 1) xs) choose nat (k - 1)"
          using "1.IH" [OF range neq False] by blast
        moreover have "nat (k - 1) = ?m - 1" "length (drop (i + 1) xs) = length xs - 1 - i"
          by (simp_all add: nat_diff_distrib)
        ultimately show ?thesis by simp
      qed
      have "length (kCombinations xs k) =
          sum_list (map (\<lambda>i. length (kCombinations (drop (i + 1) xs) (k - 1)))
            [0..<length xs - ?m + 1])"
        using range neq False m
        by (simp add: kCombinations.simps [of xs k] length_concat o_def)
      also have "\<dots> = (\<Sum>i<length xs - ?m + 1. length (kCombinations (drop (i + 1) xs) (k - 1)))"
        by (simp add: interv_sum_list_conv_sum_set_nat atLeast0LessThan)
      also have "\<dots> = (\<Sum>i<length xs - ?m + 1. (length xs - 1 - i) choose (?m - 1))"
        by (rule sum.cong [OF refl], rule each) simp
      also have "\<dots> = length xs choose ?m"
        by (rule choose_diagonal_sum [OF m(1) m(2)])
      finally show ?thesis .
    qed
  qed
qed

lemma upto_sum_list:
  "sum_list (map (\<lambda>k. f (nat k)) [1..int n]) = (\<Sum>k = 1..n. f k)" for f :: "nat \<Rightarrow> nat"
proof (induction n)
  case 0
  then show ?case by simp
next
  case (Suc n)
  have "[1..int (Suc n)] = [1..int n] @ [int (Suc n)]"
    using upto_rec2 [of 1 "int (Suc n)"] by simp
  moreover have "nat (int (Suc n)) = Suc n"
    by simp
  ultimately show ?case
    using Suc by (simp del: of_nat_Suc)
qed

lemma choose_positive_sum: "(\<Sum>k = 1..n. n choose k) = 2 ^ n - 1"
proof -
  have "(\<Sum>k\<le>n. n choose k) = (n choose 0) + (\<Sum>k = 1..n. n choose k)"
    by (simp add: atMost_atLeast0 sum.atLeast_Suc_atMost)
  then show ?thesis
    by (simp add: choose_row_sum)
qed

lemma combinations_length: "length (combinations xs) = 2 ^ length xs - 1"
proof -
  have "length (combinations xs) =
      sum_list (map (\<lambda>k. length (kCombinations xs k)) [1..int (length xs)])"
    by (simp add: combinations_def length_concat o_def)
  also have "\<dots> = sum_list (map (\<lambda>k. length xs choose nat k) [1..int (length xs)])"
    by (rule arg_cong [of _ _ sum_list], rule map_cong) (simp_all add: kCombinations_length)
  also have "\<dots> = (\<Sum>k = 1..length xs. length xs choose k)"
    by (rule upto_sum_list)
  also have "\<dots> = 2 ^ length xs - 1"
    by (rule choose_positive_sum)
  finally show ?thesis .
qed

lemma combinations_member:
  "c \<in> set (combinations xs) \<Longrightarrow> c \<noteq> [] \<and> subseq c xs"
proof -
  assume "c \<in> set (combinations xs)"
  then obtain k where k: "1 \<le> k" and c: "c \<in> set (kCombinations xs k)"
    by (auto simp: combinations_def)
  from kCombinations_member [OF c] k show ?thesis
    by auto
qed

text \<open>
  C10.  For a list \<open>xs\<close> of length \<open>n\<close> and an integer \<open>k\<close>, \<open>kCombinations xs k\<close> is
  empty when \<open>k \<le> 0\<close> or \<open>k > n\<close>; otherwise it has \<open>n choose k\<close> elements, each a list of
  length \<open>k\<close> whose elements are taken from \<open>xs\<close> in their original order.  \<open>combinations xs\<close>
  has \<open>2^n - 1\<close> elements, none of them empty.
\<close>

theorem kCombinations_count:
  "(k \<le> 0 \<or> int (length xs) < k \<longrightarrow> kCombinations xs k = [])
   \<and> (0 < k \<and> k \<le> int (length xs) \<longrightarrow>
        length (kCombinations xs k) = length xs choose nat k
        \<and> (\<forall>c\<in>set (kCombinations xs k). length c = nat k \<and> subseq c xs))
   \<and> length (combinations xs) + 1 = 2 ^ length xs
   \<and> (\<forall>c\<in>set (combinations xs). c \<noteq> [] \<and> subseq c xs)"
proof -
  have "kCombinations xs k = []" if "k \<le> 0 \<or> int (length xs) < k"
    using that by (subst kCombinations.simps) auto
  moreover have "length (kCombinations xs k) = length xs choose nat k"
    if "0 < k \<and> k \<le> int (length xs)"
    using that by (simp add: kCombinations_length)
  moreover have "\<forall>c\<in>set (kCombinations xs k). length c = nat k \<and> subseq c xs"
    using kCombinations_member by blast
  moreover have "length (combinations xs) + 1 = 2 ^ length xs"
    by (simp add: combinations_length)
  moreover have "\<forall>c\<in>set (combinations xs). c \<noteq> [] \<and> subseq c xs"
    using combinations_member by blast
  ultimately show ?thesis by blast
qed

theorem kCombinations_count_witness:
  "kCombinations [1, 2, 3 :: nat] 4 = []
   \<and> length (kCombinations [1, 2, 3 :: nat] 2) = length [1, 2, 3 :: nat] choose nat 2
   \<and> (length [1, 3 :: nat] = nat 2 \<and> subseq [1, 3] [1, 2, 3 :: nat])
   \<and> length (combinations [1, 2, 3 :: nat]) + 1 = 2 ^ length [1, 2, 3 :: nat]"
proof -
  have out: "(4::int) \<le> 0 \<or> int (length [1, 2, 3 :: nat]) < 4"
    by simp
  have inr: "(0::int) < 2 \<and> 2 \<le> int (length [1, 2, 3 :: nat])"
    by simp
  have mem: "[1, 3 :: nat] \<in> set (kCombinations [1, 2, 3] 2)"
    by code_simp
  from kCombinations_count [of 4 "[1, 2, 3 :: nat]"] out
  have "kCombinations [1, 2, 3 :: nat] 4 = []"
    by blast
  moreover from kCombinations_count [of 2 "[1, 2, 3 :: nat]"] inr mem
  have "length (kCombinations [1, 2, 3 :: nat] 2) = length [1, 2, 3 :: nat] choose nat 2
    \<and> (length [1, 3 :: nat] = nat 2 \<and> subseq [1, 3] [1, 2, 3 :: nat])
    \<and> length (combinations [1, 2, 3 :: nat]) + 1 = 2 ^ length [1, 2, 3 :: nat]"
    by blast
  ultimately show ?thesis by blast
qed

end
